theory Spec2Isabelle
  imports Complex_Main
begin

section \<open>Data model of \<open>comp_graph_node.py\<close>\<close>

text \<open>
  Every \<open>Node\<close> object lives in a heap (a list of node records); the identity of an
  object is its index, and allocation appends. Python's \<open>int\<close> and \<open>float\<close> values are
  idealised as real numbers (no rounding, no overflow, no NaN).

  A value handed to an operator is either a plain number or a reference to a \<open>Node\<close>.
\<close>

datatype pyval = Num real | Ref nat

datatype error =
    TypeError
  | AttributeError
  | AssertionError
  | ZeroDivisionError
  | RecursionError
  | NonReal  \<comment> \<open>Python yields a complex number or an infinity: no real number to return\<close>

text \<open>The \<open>_math_operator\<close> label: \<open>''\<close>, \<open>'+'\<close>, \<open>'*'\<close>, \<open>f'**{b}'\<close>, \<open>'ReLU'\<close>, \<open>'Sigmoid'\<close>.\<close>

datatype optag = OpNone | OpAdd | OpMul | OpPow real | OpReLU | OpSigmoid

text \<open>
  The \<open>_backward\<close> closures, one constructor for each \<open>def _backward()\<close> of the source,
  holding the variables the closure captures (\<open>self\<close>, \<open>b\<close>, \<open>res\<close>); \<open>Noop\<close> is
  \<open>lambda: None\<close>.
\<close>

datatype closure =
    Noop
  | Add_backward nat nat nat
  | Mul_backward nat nat nat
  | Pow_backward nat real nat
  | Relu_backward nat nat
  | Sigmoid_backward nat nat

record node =
  scalar :: real
  math_operator :: optag
  gradient :: real
  backward :: closure
  previous :: "nat list"

type_synonym heap = "node list"

text \<open>
  \<open>Node.__init__\<close>. \<open>set(_children_components)\<close> drops duplicates; the set is kept as a
  duplicate-free list. The order in which Python walks the set is not this list's order:
  it is an argument of the traversal (\<open>iteration_order\<close> below).
\<close>

definition Node_init :: "real \<Rightarrow> nat list \<Rightarrow> optag \<Rightarrow> heap \<Rightarrow> nat \<times> heap" where
  "Node_init s children_components op h =
     (length h,
      h @ [\<lparr>scalar = s, math_operator = op, gradient = 0, backward = Noop,
            previous = remdups children_components\<rparr>])"

text \<open>\<open>b if isinstance(b, Node) else Node(b)\<close>\<close>

definition as_node :: "pyval \<Rightarrow> heap \<Rightarrow> nat \<times> heap" where
  "as_node b h = (case b of Ref n \<Rightarrow> (n, h) | Num v \<Rightarrow> Node_init v [] OpNone h)"

definition set_backward :: "nat \<Rightarrow> closure \<Rightarrow> heap \<Rightarrow> heap" where
  "set_backward res c h = h[res := (h ! res)\<lparr>backward := c\<rparr>]"

text \<open>\<open>n.gradient += g\<close>\<close>

definition add_gradient :: "nat \<Rightarrow> real \<Rightarrow> heap \<Rightarrow> heap" where
  "add_gradient n g h = h[n := (h ! n)\<lparr>gradient := gradient (h ! n) + g\<rparr>]"

text \<open>
  \<open>x ** p\<close> on plain numbers: an integral exponent is repeated multiplication or its
  reciprocal, zero to a negative power raises, and a negative base with a fractional
  exponent gives a complex number.
\<close>

definition num_pow :: "real \<Rightarrow> real \<Rightarrow> error + real" where
  "num_pow x p =
     (if p = of_int \<lfloor>p\<rfloor> then
        (if x = 0 \<and> p < 0 then Inl ZeroDivisionError else Inr (power_int x \<lfloor>p\<rfloor>))
      else if x = 0 then (if p < 0 then Inl ZeroDivisionError else Inr 0)
      else if x < 0 then Inl NonReal
      else Inr (x powr p))"

section \<open>Operator recording\<close>

definition Node_add :: "nat \<Rightarrow> pyval \<Rightarrow> heap \<Rightarrow> error + pyval \<times> heap" where
  "Node_add self b0 h0 =
     (let (b, h1) = as_node b0 h0;
          (res, h2) = Node_init (scalar (h1 ! self) + scalar (h1 ! b)) [self, b] OpAdd h1
      in Inr (Ref res, set_backward res (Add_backward self b res) h2))"

definition Node_mul :: "nat \<Rightarrow> pyval \<Rightarrow> heap \<Rightarrow> error + pyval \<times> heap" where
  "Node_mul self b0 h0 =
     (let (b, h1) = as_node b0 h0;
          (res, h2) = Node_init (scalar (h1 ! self) * scalar (h1 ! b)) [self, b] OpMul h1
      in Inr (Ref res, set_backward res (Mul_backward self b res) h2))"

text \<open>The method the source names \<open>_pow__\<close>.\<close>

definition Node_pow :: "nat \<Rightarrow> pyval \<Rightarrow> heap \<Rightarrow> error + pyval \<times> heap" where
  "Node_pow self b h =
     (case b of
        Ref _ \<Rightarrow> Inl AssertionError
      | Num p \<Rightarrow>
          (case num_pow (scalar (h ! self)) p of
             Inl e \<Rightarrow> Inl e
           | Inr v \<Rightarrow>
               (let (res, h1) = Node_init v [self] (OpPow p) h
                in Inr (Ref res, set_backward res (Pow_backward self p res) h1))))"

definition relu :: "nat \<Rightarrow> heap \<Rightarrow> nat \<times> heap" where
  "relu self h =
     (let (res, h1) =
            Node_init (if scalar (h ! self) < 0 then 0 else scalar (h ! self)) [self] OpReLU h
      in (res, set_backward res (Relu_backward self res) h1))"

definition sigmoid :: "nat \<Rightarrow> heap \<Rightarrow> nat \<times> heap" where
  "sigmoid self h =
     (let (res, h1) = Node_init (1 / (1 + exp (- scalar (h ! self)))) [self] OpSigmoid h
      in (res, set_backward res (Sigmoid_backward self res) h1))"

text \<open>
  \<open>softmax\<close>: the loop assigns \<open>sum_softmax = np.exp(xi.scalar)\<close> at each element. A
  plain number in the list has no \<open>scalar\<close> attribute; over the empty list NumPy divides
  by the initial \<open>0\<close> and returns an infinity.
\<close>

fun softmax_loop :: "pyval list \<Rightarrow> heap \<Rightarrow> real \<Rightarrow> error + real" where
  "softmax_loop [] h sum_softmax = Inr sum_softmax"
| "softmax_loop (Ref xi # x) h sum_softmax = softmax_loop x h (exp (scalar (h ! xi)))"
| "softmax_loop (Num _ # x) h sum_softmax = Inl AttributeError"

definition softmax :: "nat \<Rightarrow> pyval list \<Rightarrow> heap \<Rightarrow> error + real" where
  "softmax self x h =
     (case softmax_loop x h 0 of
        Inl e \<Rightarrow> Inl e
      | Inr sum_softmax \<Rightarrow>
          (if sum_softmax = 0 then Inl NonReal
           else Inr (exp (scalar (h ! self)) / sum_softmax)))"

text \<open>The comparison methods read \<open>other.scalar\<close> and build nothing.\<close>

definition Node_gt :: "nat \<Rightarrow> pyval \<Rightarrow> heap \<Rightarrow> error + bool \<times> heap" where
  "Node_gt self other h =
     (case other of Num _ \<Rightarrow> Inl AttributeError
      | Ref b \<Rightarrow> Inr (scalar (h ! self) > scalar (h ! b), h))"

definition Node_lt :: "nat \<Rightarrow> pyval \<Rightarrow> heap \<Rightarrow> error + bool \<times> heap" where
  "Node_lt self other h =
     (case other of Num _ \<Rightarrow> Inl AttributeError
      | Ref b \<Rightarrow> Inr (scalar (h ! self) < scalar (h ! b), h))"

definition Node_ge :: "nat \<Rightarrow> pyval \<Rightarrow> heap \<Rightarrow> error + bool \<times> heap" where
  "Node_ge self other h =
     (case other of Num _ \<Rightarrow> Inl AttributeError
      | Ref b \<Rightarrow> Inr (scalar (h ! self) \<ge> scalar (h ! b), h))"

definition Node_le :: "nat \<Rightarrow> pyval \<Rightarrow> heap \<Rightarrow> error + bool \<times> heap" where
  "Node_le self other h =
     (case other of Num _ \<Rightarrow> Inl AttributeError
      | Ref b \<Rightarrow> Inr (scalar (h ! self) \<le> scalar (h ! b), h))"

section \<open>Operator dispatch\<close>

text \<open>
  The binary arithmetic methods that the class body binds, under the names the source
  gives them. Python evaluates \<open>x + y\<close> on a \<open>Node\<close> \<open>x\<close> by looking \<open>__add__\<close> up in
  the class of \<open>x\<close>; when \<open>x\<close> is a plain number and \<open>y\<close> a \<open>Node\<close>, the number's own
  method declines and the reflected name is looked up in the class of \<open>y\<close>. An operator
  whose name the class does not bind raises \<open>TypeError\<close>. None of the methods returns
  \<open>NotImplemented\<close>, so a method that is found decides the result.
\<close>

type_synonym 'r bound_method = "nat \<Rightarrow> pyval \<Rightarrow> heap \<Rightarrow> error + 'r \<times> heap"

definition binary_op ::
  "(string \<times> 'r bound_method) list \<Rightarrow> string \<Rightarrow> string \<Rightarrow> (real \<Rightarrow> real \<Rightarrow> error + 'r) \<Rightarrow>
   pyval \<Rightarrow> pyval \<Rightarrow> heap \<Rightarrow> error + 'r \<times> heap" where
  "binary_op cls name rname prim x y h =
     (case x of
        Ref a \<Rightarrow> (case map_of cls name of Some f \<Rightarrow> f a y h | None \<Rightarrow> Inl TypeError)
      | Num p \<Rightarrow>
          (case y of
             Num q \<Rightarrow> (case prim p q of Inl e \<Rightarrow> Inl e | Inr v \<Rightarrow> Inr (v, h))
           | Ref b \<Rightarrow>
               (case map_of cls rname of Some f \<Rightarrow> f b x h | None \<Rightarrow> Inl TypeError)))"

definition py_add :: "(string \<times> pyval bound_method) list \<Rightarrow> pyval \<Rightarrow> pyval \<Rightarrow> heap \<Rightarrow> error + pyval \<times> heap" where
  "py_add cls = binary_op cls ''__add__'' ''__radd__'' (\<lambda>p q. Inr (Num (p + q)))"

definition py_mul :: "(string \<times> pyval bound_method) list \<Rightarrow> pyval \<Rightarrow> pyval \<Rightarrow> heap \<Rightarrow> error + pyval \<times> heap" where
  "py_mul cls = binary_op cls ''__mul__'' ''__rmul__'' (\<lambda>p q. Inr (Num (p * q)))"

definition py_pow :: "(string \<times> pyval bound_method) list \<Rightarrow> pyval \<Rightarrow> pyval \<Rightarrow> heap \<Rightarrow> error + pyval \<times> heap" where
  "py_pow cls =
     binary_op cls ''__pow__'' ''__rpow__''
       (\<lambda>p q. case num_pow p q of Inl e \<Rightarrow> Inl e | Inr v \<Rightarrow> Inr (Num v))"

definition py_truediv :: "(string \<times> pyval bound_method) list \<Rightarrow> pyval \<Rightarrow> pyval \<Rightarrow> heap \<Rightarrow> error + pyval \<times> heap" where
  "py_truediv cls =
     binary_op cls ''__truediv__'' ''__rtruediv__''
       (\<lambda>p q. if q = 0 then Inl ZeroDivisionError else Inr (Num (p / q)))"

definition py_sub :: "(string \<times> pyval bound_method) list \<Rightarrow> pyval \<Rightarrow> pyval \<Rightarrow> heap \<Rightarrow> error + pyval \<times> heap" where
  "py_sub cls = binary_op cls ''__sub__'' ''__rsub__'' (\<lambda>p q. Inr (Num (p - q)))"

text \<open>
  The class body, in three steps so that each method is defined before the methods whose
  bodies use it. \<open>lookup_stable\<close> below shows that the steps agree with the whole class
  on every operator name a method body uses.
\<close>

definition Node_base :: "(string \<times> pyval bound_method) list" where
  "Node_base = [(''__add__'', Node_add), (''__mul__'', Node_mul), (''_pow__'', Node_pow)]"

text \<open>\<open>__neg__\<close>: \<open>self * (-1)\<close>; \<open>__radd__\<close>: \<open>self + b\<close>; \<open>__rmul__\<close>: \<open>self * b\<close>.\<close>

definition Node_neg :: "nat \<Rightarrow> heap \<Rightarrow> error + pyval \<times> heap" where
  "Node_neg self h = py_mul Node_base (Ref self) (Num (- 1)) h"

definition Node_radd :: "nat \<Rightarrow> pyval \<Rightarrow> heap \<Rightarrow> error + pyval \<times> heap" where
  "Node_radd self b h = py_add Node_base (Ref self) b h"

definition Node_rmul :: "nat \<Rightarrow> pyval \<Rightarrow> heap \<Rightarrow> error + pyval \<times> heap" where
  "Node_rmul self b h = py_mul Node_base (Ref self) b h"

definition Node_reflected :: "(string \<times> pyval bound_method) list" where
  "Node_reflected = Node_base @ [(''__radd__'', Node_radd), (''__rmul__'', Node_rmul)]"

text \<open>Unary minus: a number is negated, a \<open>Node\<close> goes through \<open>__neg__\<close>.\<close>

definition py_neg :: "pyval \<Rightarrow> heap \<Rightarrow> error + pyval \<times> heap" where
  "py_neg x h = (case x of Num p \<Rightarrow> Inr (Num (- p), h) | Ref a \<Rightarrow> Node_neg a h)"

text \<open>
  \<open>__sub__\<close>: \<open>self + (- b)\<close>; \<open>__rsub__\<close>: \<open>b + (-self)\<close>;
  \<open>__truediv__\<close>: \<open>self * b **( -1)\<close>; \<open>__rtruediv__\<close>: \<open>b * self **( -1)\<close>.
  The power binds tighter than the product and is evaluated first.
\<close>

definition Node_sub :: "nat \<Rightarrow> pyval \<Rightarrow> heap \<Rightarrow> error + pyval \<times> heap" where
  "Node_sub self b h =
     (case py_neg b h of Inl e \<Rightarrow> Inl e
      | Inr (nb, h1) \<Rightarrow> py_add Node_reflected (Ref self) nb h1)"

definition Node_rsub :: "nat \<Rightarrow> pyval \<Rightarrow> heap \<Rightarrow> error + pyval \<times> heap" where
  "Node_rsub self b h =
     (case Node_neg self h of Inl e \<Rightarrow> Inl e
      | Inr (ns, h1) \<Rightarrow> py_add Node_reflected b ns h1)"

definition Node_truediv :: "nat \<Rightarrow> pyval \<Rightarrow> heap \<Rightarrow> error + pyval \<times> heap" where
  "Node_truediv self b h =
     (case py_pow Node_reflected b (Num (- 1)) h of Inl e \<Rightarrow> Inl e
      | Inr (recip, h1) \<Rightarrow> py_mul Node_reflected (Ref self) recip h1)"

definition Node_rtruediv :: "nat \<Rightarrow> pyval \<Rightarrow> heap \<Rightarrow> error + pyval \<times> heap" where
  "Node_rtruediv self b h =
     (case py_pow Node_reflected (Ref self) (Num (- 1)) h of Inl e \<Rightarrow> Inl e
      | Inr (recip, h1) \<Rightarrow> py_mul Node_reflected b recip h1)"

definition Node_class :: "(string \<times> pyval bound_method) list" where
  "Node_class =
     Node_reflected @
     [(''__sub__'', Node_sub), (''__rsub__'', Node_rsub),
      (''__truediv__'', Node_truediv), (''__rtruediv__'', Node_rtruediv)]"

text \<open>
  The comparison methods. A comparison whose left operand is a plain number is answered by
  the reflected method of the \<open>Node\<close> on the right (\<open>__lt__\<close> for \<open>>\<close>, and so on).
\<close>

definition Node_compare :: "(string \<times> bool bound_method) list" where
  "Node_compare =
     [(''__gt__'', Node_gt), (''__lt__'', Node_lt), (''__ge__'', Node_ge), (''__le__'', Node_le)]"

definition py_gt :: "pyval \<Rightarrow> pyval \<Rightarrow> heap \<Rightarrow> error + bool \<times> heap" where
  "py_gt = binary_op Node_compare ''__gt__'' ''__lt__'' (\<lambda>p q. Inr (p > q))"

definition py_lt :: "pyval \<Rightarrow> pyval \<Rightarrow> heap \<Rightarrow> error + bool \<times> heap" where
  "py_lt = binary_op Node_compare ''__lt__'' ''__gt__'' (\<lambda>p q. Inr (p < q))"

definition py_ge :: "pyval \<Rightarrow> pyval \<Rightarrow> heap \<Rightarrow> error + bool \<times> heap" where
  "py_ge = binary_op Node_compare ''__ge__'' ''__le__'' (\<lambda>p q. Inr (p \<ge> q))"

definition py_le :: "pyval \<Rightarrow> pyval \<Rightarrow> heap \<Rightarrow> error + bool \<times> heap" where
  "py_le = binary_op Node_compare ''__le__'' ''__ge__'' (\<lambda>p q. Inr (p \<le> q))"

section \<open>Backward propagation\<close>

text \<open>
  Running a stored \<open>_backward\<close> closure. Each \<open>+=\<close> reads the heap as the statement
  before it left it, so an operand used twice (\<open>a + a\<close>) receives both contributions.
\<close>

fun run_backward :: "closure \<Rightarrow> heap \<Rightarrow> error + heap" where
  "run_backward Noop h = Inr h"
| "run_backward (Add_backward self b res) h =
     (let h1 = add_gradient self (gradient (h ! res)) h;
          h2 = add_gradient b (gradient (h1 ! res)) h1
      in Inr h2)"
| "run_backward (Mul_backward self b res) h =
     (let h1 = add_gradient self (scalar (h ! b) * gradient (h ! res)) h;
          h2 = add_gradient b (scalar (h1 ! self) * gradient (h1 ! res)) h1
      in Inr h2)"
| "run_backward (Pow_backward self b res) h =
     (case num_pow (scalar (h ! self)) (b - 1) of
        Inl e \<Rightarrow> Inl e
      | Inr v \<Rightarrow> Inr (add_gradient self ((b * v) * gradient (h ! res)) h))"
| "run_backward (Relu_backward self res) h =
     Inr (add_gradient self ((if scalar (h ! res) > 0 then 1 else 0) * gradient (h ! res)) h)"
| "run_backward (Sigmoid_backward self res) h =
     Inr (add_gradient self (scalar (h ! res) * (1 - scalar (h ! res))) h)"

text \<open>
  Python does not fix the order in which \<open>for child in i._previous\<close> walks a set. The
  traversal takes that order as its first argument: \<open>iter i xs\<close> is the order in which
  the operand set \<open>xs\<close> of node \<open>i\<close> is walked, some rearrangement of \<open>xs\<close>.
  \<open>insertion_order\<close> is the one that walks the operands as the operator listed them.
  Nodes are hashed by identity (the class defines no \<open>__eq__\<close>), so membership in
  \<open>visited\<close> is membership of the index.
\<close>

definition iteration_order :: "(nat \<Rightarrow> nat list \<Rightarrow> nat list) \<Rightarrow> bool" where
  "iteration_order iter = (\<forall>i xs. set (iter i xs) = set xs \<and> length (iter i xs) = length xs)"

definition insertion_order :: "nat \<Rightarrow> nat list \<Rightarrow> nat list" where
  "insertion_order i xs = xs"

text \<open>
  \<open>build_topological_sort\<close>, with the local \<open>visited\<close> and \<open>topological_sorted\<close> passed
  through. The second argument is the number of nested calls the interpreter still allows
  (its recursion limit); a call beyond it raises \<open>RecursionError\<close>.
\<close>

fun build_topological_sort ::
    "(nat \<Rightarrow> nat list \<Rightarrow> nat list) \<Rightarrow> nat \<Rightarrow> heap \<Rightarrow> nat \<Rightarrow> nat set \<times> nat list \<Rightarrow>
     error + nat set \<times> nat list"
  and visit_children ::
    "(nat \<Rightarrow> nat list \<Rightarrow> nat list) \<Rightarrow> nat \<Rightarrow> heap \<Rightarrow> nat list \<Rightarrow> nat set \<times> nat list \<Rightarrow>
     error + nat set \<times> nat list"
where
  "build_topological_sort iter 0 h i s = Inl RecursionError"
| "build_topological_sort iter (Suc depth) h i (visited, topological_sorted) =
     (if i \<notin> visited then
        (case visit_children iter depth h (iter i (previous (h ! i)))
                (insert i visited, topological_sorted) of
           Inl e \<Rightarrow> Inl e
         | Inr (visited', sorted') \<Rightarrow> Inr (visited', sorted' @ [i]))
      else Inr (visited, topological_sorted))"
| "visit_children iter depth h [] s = Inr s"
| "visit_children iter depth h (child # rest) s =
     (case build_topological_sort iter depth h child s of
        Inl e \<Rightarrow> Inl e
      | Inr s' \<Rightarrow> visit_children iter depth h rest s')"

text \<open>The loop \<open>for node in reversed(topological_sorted): node._backward()\<close>.\<close>

fun backward_loop :: "nat list \<Rightarrow> heap \<Rightarrow> error option \<times> heap" where
  "backward_loop [] h = (None, h)"
| "backward_loop (n # ns) h =
     (case run_backward (backward (h ! n)) h of
        Inl e \<Rightarrow> (Some e, h)
      | Inr h' \<Rightarrow> backward_loop ns h')"

text \<open>
  \<open>backward_propagation\<close> returns the heap as the call leaves it, also when it raises:
  the gradients written before an exception stay written.
\<close>

definition backward_propagation ::
  "(nat \<Rightarrow> nat list \<Rightarrow> nat list) \<Rightarrow> nat \<Rightarrow> nat \<Rightarrow> heap \<Rightarrow> error option \<times> heap" where
  "backward_propagation iter limit self h =
     (case build_topological_sort iter limit h self ({}, []) of
        Inl e \<Rightarrow> (Some e, h)
      | Inr (visited, topological_sorted) \<Rightarrow>
          backward_loop (rev topological_sorted) (h[self := (h ! self)\<lparr>gradient := 1\<rparr>]))"

section \<open>Graphs built by the operators\<close>

text \<open>A reference is usable when it points at an allocated node; a number always is.\<close>

definition in_heap :: "pyval \<Rightarrow> heap \<Rightarrow> bool" where
  "in_heap v h = (case v of Num _ \<Rightarrow> True | Ref n \<Rightarrow> n < length h)"

text \<open>
  The heaps a client reaches from nothing by creating leaves, applying the recording
  methods (the derived operators are compositions of these) and running backward
  propagation.
\<close>

inductive constructed :: "heap \<Rightarrow> bool" where
  empty: "constructed []"
| leaf: "constructed h \<Longrightarrow> Node_init v [] OpNone h = (a, h') \<Longrightarrow> constructed h'"
| add: "constructed h \<Longrightarrow> a < length h \<Longrightarrow> in_heap b h \<Longrightarrow> Node_add a b h = Inr (r, h')
        \<Longrightarrow> constructed h'"
| mul: "constructed h \<Longrightarrow> a < length h \<Longrightarrow> in_heap b h \<Longrightarrow> Node_mul a b h = Inr (r, h')
        \<Longrightarrow> constructed h'"
| pow: "constructed h \<Longrightarrow> a < length h \<Longrightarrow> Node_pow a b h = Inr (r, h') \<Longrightarrow> constructed h'"
| relu: "constructed h \<Longrightarrow> a < length h \<Longrightarrow> relu a h = (n, h') \<Longrightarrow> constructed h'"
| sigmoid: "constructed h \<Longrightarrow> a < length h \<Longrightarrow> sigmoid a h = (n, h') \<Longrightarrow> constructed h'"
| backward:
    "constructed h \<Longrightarrow> n < length h \<Longrightarrow> backward_propagation iter limit n h = (e, h')
      \<Longrightarrow> constructed h'"

text \<open>Operands are allocated before the node that uses them.\<close>

definition acyclic_heap :: "heap \<Rightarrow> bool" where
  "acyclic_heap h = (\<forall>i<length h. \<forall>c\<in>set (previous (h ! i)). c < i)"

text \<open>\<open>reaches h r n\<close>: \<open>n\<close> is \<open>r\<close> or one of its direct or indirect operands.\<close>

inductive reaches :: "heap \<Rightarrow> nat \<Rightarrow> nat \<Rightarrow> bool" for h r where
  root: "reaches h r r"
| operand: "reaches h r n \<Longrightarrow> c \<in> set (previous (h ! n)) \<Longrightarrow> reaches h r c"

text \<open>Every entry of the sequence has its operands among the entries before it.\<close>

definition operands_first :: "heap \<Rightarrow> nat list \<Rightarrow> bool" where
  "operands_first h out = (\<forall>j<length out. set (previous (h ! (out ! j))) \<subseteq> set (take j out))"

text \<open>
  The invariant of the traversal below a node smaller than \<open>k\<close>: what is in the sequence
  is visited, the sequence is duplicate-free and ordered, and a node that is visited but
  not yet appended (it is on the call stack) is at least \<open>k\<close>.
\<close>

definition dfs_inv :: "heap \<Rightarrow> nat \<Rightarrow> nat set \<times> nat list \<Rightarrow> bool" where
  "dfs_inv h k s =
     (set (snd s) \<subseteq> fst s \<and> distinct (snd s) \<and> operands_first h (snd s) \<and>
      (\<forall>n\<in>fst s - set (snd s). k \<le> n))"

text \<open>The heap with every gradient erased: the graph and its forward values.\<close>

definition graph_of :: "heap \<Rightarrow> node list" where
  "graph_of h = map (\<lambda>n. n\<lparr>gradient := 0\<rparr>) h"

text \<open>
  A node as \<open>Node(v)\<close> leaves it: no operands, the default \<open>_backward\<close>, gradient \<open>0\<close>.
\<close>

definition is_leaf :: "heap \<Rightarrow> nat \<Rightarrow> bool" where
  "is_leaf h a =
     (a < length h \<and> previous (h ! a) = [] \<and> backward (h ! a) = Noop \<and> gradient (h ! a) = 0)"

section \<open>Dispatch facts\<close>

lemmas dispatch_defs = binary_op_def Node_class_def Node_reflected_def Node_base_def

lemmas alloc_defs = Node_init_def as_node_def set_backward_def add_gradient_def

lemma lookup_stable:
  "map_of Node_base ''__add__'' = map_of Node_class ''__add__''"
  "map_of Node_base ''__mul__'' = map_of Node_class ''__mul__''"
  "map_of Node_reflected ''__add__'' = map_of Node_class ''__add__''"
  "map_of Node_reflected ''__radd__'' = map_of Node_class ''__radd__''"
  "map_of Node_reflected ''__mul__'' = map_of Node_class ''__mul__''"
  "map_of Node_reflected ''__rmul__'' = map_of Node_class ''__rmul__''"
  "map_of Node_reflected ''__pow__'' = map_of Node_class ''__pow__''"
  "map_of Node_reflected ''__rpow__'' = map_of Node_class ''__rpow__''"
  by (simp_all add: Node_class_def Node_reflected_def Node_base_def)

text \<open>The class binds \<open>_pow__\<close>; neither \<open>__pow__\<close> nor \<open>__rpow__\<close> is bound.\<close>

lemma pow_unbound:
  "map_of Node_class ''__pow__'' = None"
  "map_of Node_class ''__rpow__'' = None"
  "map_of Node_class ''_pow__'' = Some Node_pow"
  by (simp_all add: Node_class_def Node_reflected_def Node_base_def)

lemma py_pow_node_raises: "py_pow Node_class (Ref a) y h = Inl TypeError"
  by (simp add: py_pow_def binary_op_def pow_unbound)

lemma py_pow_reflected_raises: "py_pow Node_reflected (Ref a) y h = Inl TypeError"
  by (simp add: py_pow_def binary_op_def lookup_stable pow_unbound)

lemma truediv_bound:
  "map_of Node_class ''__truediv__'' = Some Node_truediv"
  "map_of Node_class ''__rtruediv__'' = Some Node_rtruediv"
  by (simp_all add: Node_class_def Node_reflected_def Node_base_def)

lemma add_mul_bound:
  "map_of Node_class ''__add__'' = Some Node_add"
  "map_of Node_class ''__mul__'' = Some Node_mul"
  by (simp_all add: Node_class_def Node_reflected_def Node_base_def)

lemma compare_bound:
  "map_of Node_compare ''__gt__'' = Some Node_gt"
  "map_of Node_compare ''__lt__'' = Some Node_lt"
  "map_of Node_compare ''__ge__'' = Some Node_ge"
  "map_of Node_compare ''__le__'' = Some Node_le"
  by (simp_all add: Node_compare_def)

lemmas compare_defs = py_gt_def py_lt_def py_ge_def py_le_def binary_op_def compare_bound
  Node_gt_def Node_lt_def Node_ge_def Node_le_def

lemma py_truediv_nodes_raises: "py_truediv Node_class (Ref a) (Ref b) h = Inl TypeError"
  by (simp add: py_truediv_def binary_op_def truediv_bound Node_truediv_def
      py_pow_reflected_raises)

lemma py_rtruediv_raises: "py_truediv Node_class (Num c) (Ref a) h = Inl TypeError"
  by (simp add: py_truediv_def binary_op_def truediv_bound Node_rtruediv_def
      py_pow_reflected_raises)

text \<open>
  Called under the name the source gives it, the method does compute the power and record
  the power rule: \<open>a._pow__(3)\<close> on \<open>a = Node(2)\<close> yields a node of value 8, and backward
  propagation from it leaves \<open>a.gradient = 12\<close>.
\<close>

lemma Node_pow_by_its_name:
  "\<exists>h1 h2. Node_pow 0 (Num 3) (snd (Node_init 2 [] OpNone [])) = Inr (Ref 1, h1) \<and>
     scalar (h1 ! 1) = 8 \<and> backward_propagation insertion_order 2 1 h1 = (None, h2) \<and> gradient (h2 ! 0) = 12"
  by (simp add: Node_pow_def num_pow_def alloc_defs backward_propagation_def
      insertion_order_def numeral_2_eq_2 power_int_def)

section \<open>What the operations leave alone\<close>

lemma graph_of_length: "graph_of h' = graph_of h \<Longrightarrow> length h' = length h"
  unfolding graph_of_def by (metis length_map)

lemma graph_of_previous:
  "graph_of h' = graph_of h \<Longrightarrow> i < length h \<Longrightarrow> previous (h' ! i) = previous (h ! i)"
proof -
  assume e: "graph_of h' = graph_of h" and i: "i < length h"
  have l: "length h' = length h" using e by (rule graph_of_length)
  have "graph_of h' ! i = graph_of h ! i" using e by simp
  then have "(h' ! i)\<lparr>gradient := 0\<rparr> = (h ! i)\<lparr>gradient := 0\<rparr>"
    using i l by (simp add: graph_of_def)
  then have "previous ((h' ! i)\<lparr>gradient := 0\<rparr>) = previous ((h ! i)\<lparr>gradient := 0\<rparr>)"
    by simp
  then show ?thesis by simp
qed

lemma graph_of_scalars: "graph_of h' = graph_of h \<Longrightarrow> map scalar h' = map scalar h"
proof -
  assume e: "graph_of h' = graph_of h"
  have "map scalar h' = map scalar (graph_of h')" by (simp add: graph_of_def comp_def)
  also have "\<dots> = map scalar (graph_of h)" using e by simp
  also have "\<dots> = map scalar h" by (simp add: graph_of_def comp_def)
  finally show ?thesis .
qed

lemma nth_update_at: "i < length h \<Longrightarrow> h[n := x] ! i = (if i = n then x else h ! i)"
  by (cases "i = n") auto

lemma add_gradient_graph: "graph_of (add_gradient n g h) = graph_of h"
  by (simp add: graph_of_def add_gradient_def list_eq_iff_nth_eq nth_update_at)

lemma run_backward_graph: "run_backward c h = Inr h' \<Longrightarrow> graph_of h' = graph_of h"
  by (cases c) (auto simp: add_gradient_graph Let_def split: sum.splits)

lemma backward_loop_graph: "graph_of (snd (backward_loop ns h)) = graph_of h"
proof (induction ns arbitrary: h)
  case Nil
  show ?case by simp
next
  case (Cons n ns)
  show ?case
  proof (cases "run_backward (backward (h ! n)) h")
    case (Inl e)
    then show ?thesis by simp
  next
    case (Inr h')
    then show ?thesis using Cons[of h'] run_backward_graph[OF Inr] by simp
  qed
qed

lemma seed_graph: "graph_of (h[r := (h ! r)\<lparr>gradient := 1\<rparr>]) = graph_of h"
  by (simp add: graph_of_def list_eq_iff_nth_eq nth_update_at)

lemma backward_propagation_graph:
  "graph_of (snd (backward_propagation iter limit r h)) = graph_of h"
  by (simp add: backward_propagation_def backward_loop_graph seed_graph
      split: sum.splits prod.splits)

lemma Node_init_extends: "Node_init s cs op h = (n, h') \<Longrightarrow> take (length h) h' = h"
  by (auto simp: Node_init_def)

lemma Node_add_extends: "Node_add a b h = Inr (v, h') \<Longrightarrow> take (length h) h' = h"
  by (auto simp: Node_add_def alloc_defs split: pyval.splits)

lemma Node_mul_extends: "Node_mul a b h = Inr (v, h') \<Longrightarrow> take (length h) h' = h"
  by (auto simp: Node_mul_def alloc_defs split: pyval.splits)

lemma Node_pow_extends: "Node_pow a b h = Inr (v, h') \<Longrightarrow> take (length h) h' = h"
  by (auto simp: Node_pow_def alloc_defs split: pyval.splits sum.splits)

lemma relu_extends: "relu a h = (n, h') \<Longrightarrow> take (length h) h' = h"
  by (auto simp: relu_def alloc_defs)

lemma sigmoid_extends: "sigmoid a h = (n, h') \<Longrightarrow> take (length h) h' = h"
  by (auto simp: sigmoid_def alloc_defs)

section \<open>The depth-first ordering\<close>

lemma reaches_trans: "reaches h c n \<Longrightarrow> reaches h r c \<Longrightarrow> reaches h r n"
  by (induction rule: reaches.induct) (auto intro: reaches.intros)

lemma operands_first_append:
  "operands_first h out \<Longrightarrow> set (previous (h ! i)) \<subseteq> set out \<Longrightarrow> operands_first h (out @ [i])"
  unfolding operands_first_def
  by (auto simp: nth_append less_Suc_eq)

lemma dfs_inv_done: "dfs_inv h k (V, T) \<Longrightarrow> n \<in> V \<Longrightarrow> n < k \<Longrightarrow> n \<in> set T"
  unfolding dfs_inv_def by (metis DiffI fst_conv snd_conv not_le)

lemma dfs_inv_enter:
  "dfs_inv h k (V, T) \<Longrightarrow> i < k \<Longrightarrow> dfs_inv h i (insert i V, T)"
  unfolding dfs_inv_def
proof (intro conjI ballI)
  fix n assume a: "set (snd (V, T)) \<subseteq> fst (V, T) \<and> distinct (snd (V, T)) \<and>
      operands_first h (snd (V, T)) \<and> (\<forall>n\<in>fst (V, T) - set (snd (V, T)). k \<le> n)"
    and ik: "i < k" and n: "n \<in> fst (insert i V, T) - set (snd (insert i V, T))"
  show "i \<le> n"
  proof (cases "n = i")
    case True then show ?thesis by simp
  next
    case False
    then have "n \<in> V - set T" using n by simp
    then have "k \<le> n" using a by simp
    then show ?thesis using ik by simp
  qed
qed auto

lemma dfs_step:
  assumes inv: "dfs_inv h k (V, T)" and ik: "i < k" and iV: "i \<notin> V"
    and inv': "dfs_inv h i (insert i V \<union> set xs, T @ xs)"
    and small: "\<forall>x\<in>set xs. \<exists>c\<in>set (previous (h ! i)). x \<le> c"
    and sub: "set (previous (h ! i)) \<subseteq> insert i V \<union> set xs"
    and ac: "\<forall>c\<in>set (previous (h ! i)). c < i"
  shows "dfs_inv h k (V \<union> set (xs @ [i]), T @ xs @ [i])"
proof -
  have xs_lt: "\<forall>x\<in>set xs. x < i" using small ac by fastforce
  have iT: "i \<notin> set T" using inv iV by (auto simp: dfs_inv_def)
  have ch: "set (previous (h ! i)) \<subseteq> set (T @ xs)"
  proof
    fix c assume c: "c \<in> set (previous (h ! i))"
    then have "c < i" using ac by blast
    moreover have "c \<in> insert i V \<union> set xs" using c sub by blast
    ultimately show "c \<in> set (T @ xs)"
      using dfs_inv_done[OF inv'] by blast
  qed
  have "operands_first h ((T @ xs) @ [i])"
    using inv' ch by (intro operands_first_append) (auto simp: dfs_inv_def)
  moreover have "distinct (T @ xs @ [i])"
    using inv' iT xs_lt by (auto simp: dfs_inv_def)
  moreover have "\<forall>n\<in>(V \<union> set (xs @ [i])) - set (T @ xs @ [i]). k \<le> n"
    using inv by (auto simp: dfs_inv_def)
  moreover have "set (T @ xs @ [i]) \<subseteq> V \<union> set (xs @ [i])"
    using inv by (auto simp: dfs_inv_def)
  ultimately show ?thesis by (simp add: dfs_inv_def)
qed

lemma dfs_correct:
  shows "iteration_order iter \<Longrightarrow> acyclic_heap h \<Longrightarrow> i < length h \<Longrightarrow> i < d \<Longrightarrow> i < k \<Longrightarrow>
      dfs_inv h k s \<Longrightarrow>
      \<exists>xs. build_topological_sort iter d h i s = Inr (fst s \<union> set xs, snd s @ xs) \<and>
           (\<forall>x\<in>set xs. x \<le> i) \<and> i \<in> fst s \<union> set xs \<and>
           dfs_inv h k (fst s \<union> set xs, snd s @ xs) \<and> (\<forall>x\<in>set xs. reaches h i x)"
    and "iteration_order iter \<Longrightarrow> acyclic_heap h \<Longrightarrow>
      \<forall>c\<in>set cs. c < length h \<and> c < d \<and> c < k \<Longrightarrow> dfs_inv h k s \<Longrightarrow>
      \<exists>xs. visit_children iter d h cs s = Inr (fst s \<union> set xs, snd s @ xs) \<and>
           (\<forall>x\<in>set xs. \<exists>c\<in>set cs. x \<le> c) \<and> set cs \<subseteq> fst s \<union> set xs \<and>
           dfs_inv h k (fst s \<union> set xs, snd s @ xs) \<and>
           (\<forall>x\<in>set xs. \<exists>c\<in>set cs. reaches h c x)"
proof (induction iter d h i s and iter d h cs s arbitrary: k and k
    rule: build_topological_sort_visit_children.induct)
  case (1 iter h i s)
  then show ?case by simp
next
  case (2 iter depth h i visited topological_sorted)
  show ?case
  proof (cases "i \<in> visited")
    case True
    then have "i \<in> set topological_sorted"
      using dfs_inv_done[OF "2.prems"(6)] "2.prems"(5) by blast
    then show ?thesis using True "2.prems"
      by (intro exI[of _ "[]"]) simp
  next
    case False
    have walk: "set (iter i (previous (h ! i))) = set (previous (h ! i))"
      using "2.prems"(1) by (simp add: iteration_order_def)
    have lt: "\<forall>c\<in>set (previous (h ! i)). c < i"
      using "2.prems"(2,3) by (simp add: acyclic_heap_def)
    have pre: "\<forall>c\<in>set (iter i (previous (h ! i))). c < length h \<and> c < depth \<and> c < i"
      unfolding walk using lt "2.prems"(3,4) by auto
    have inv0: "dfs_inv h i (insert i visited, topological_sorted)"
      using dfs_inv_enter[OF "2.prems"(6,5)] .
    from "2.IH"[OF False "2.prems"(1,2) pre inv0] obtain xs where
      run: "visit_children iter depth h (iter i (previous (h ! i)))
              (insert i visited, topological_sorted)
              = Inr (insert i visited \<union> set xs, topological_sorted @ xs)"
      and small: "\<forall>x\<in>set xs. \<exists>c\<in>set (previous (h ! i)). x \<le> c"
      and sub: "set (previous (h ! i)) \<subseteq> insert i visited \<union> set xs"
      and inv1: "dfs_inv h i (insert i visited \<union> set xs, topological_sorted @ xs)"
      and rch: "\<forall>x\<in>set xs. \<exists>c\<in>set (previous (h ! i)). reaches h c x"
      unfolding walk by auto
    have inv2: "dfs_inv h k (visited \<union> set (xs @ [i]), topological_sorted @ xs @ [i])"
      using dfs_step[OF "2.prems"(6,5) False inv1 small sub lt] .
    have r: "\<forall>x\<in>set (xs @ [i]). reaches h i x"
    proof
      fix x assume "x \<in> set (xs @ [i])"
      then consider "x = i" | "x \<in> set xs" by auto
      then show "reaches h i x"
      proof cases
        case 1 then show ?thesis by (simp add: reaches.root)
      next
        case 2
        then obtain c where "c \<in> set (previous (h ! i))" "reaches h c x" using rch by blast
        then show ?thesis
          by (meson reaches.root reaches.operand reaches_trans)
      qed
    qed
    have le: "\<forall>x\<in>set (xs @ [i]). x \<le> i" using small lt by fastforce
    show ?thesis
      using False run inv2 r le
      by (intro exI[of _ "xs @ [i]"]) simp
  qed
next
  case (3 iter depth h s)
  then show ?case by (intro exI[of _ "[]"]) simp
next
  case (4 iter depth h child rest s)
  from "4.prems" have c: "child < length h" "child < depth" "child < k" by auto
  from "4.IH"(1)[OF "4.prems"(1,2) c "4.prems"(4)] obtain xs1 where
    run1: "build_topological_sort iter depth h child s = Inr (fst s \<union> set xs1, snd s @ xs1)"
    and le1: "\<forall>x\<in>set xs1. x \<le> child" and in1: "child \<in> fst s \<union> set xs1"
    and inv1: "dfs_inv h k (fst s \<union> set xs1, snd s @ xs1)"
    and r1: "\<forall>x\<in>set xs1. reaches h child x"
    by auto
  have rest: "\<forall>c\<in>set rest. c < length h \<and> c < depth \<and> c < k" using "4.prems"(3) by simp
  from "4.IH"(2)[OF run1 "4.prems"(1,2) rest inv1] obtain xs2 where
    run2: "visit_children iter depth h rest (fst s \<union> set xs1, snd s @ xs1)
             = Inr (fst s \<union> set xs1 \<union> set xs2, (snd s @ xs1) @ xs2)"
    and le2: "\<forall>x\<in>set xs2. \<exists>c\<in>set rest. x \<le> c"
    and in2: "set rest \<subseteq> fst s \<union> set xs1 \<union> set xs2"
    and inv2: "dfs_inv h k (fst s \<union> set xs1 \<union> set xs2, (snd s @ xs1) @ xs2)"
    and r2: "\<forall>x\<in>set xs2. \<exists>c\<in>set rest. reaches h c x"
    by auto
  have eq: "fst s \<union> set xs1 \<union> set xs2 = fst s \<union> set (xs1 @ xs2)" by auto
  show ?case
    apply (intro exI[of _ "xs1 @ xs2"])
    using run1 run2 le1 le2 in1 in2 inv2 r1 r2 unfolding eq
    by (auto simp: Un_assoc)
qed

lemma acyclic_graph_of: "graph_of h' = graph_of h \<Longrightarrow> acyclic_heap h \<Longrightarrow> acyclic_heap h'"
  unfolding acyclic_heap_def
  using graph_of_length[of h' h] graph_of_previous[of h' h] by simp

lemma acyclic_alloc:
  "acyclic_heap h \<Longrightarrow> \<forall>c\<in>set cs. c < length h \<Longrightarrow>
     acyclic_heap (set_backward (length h) clo (snd (Node_init s cs op h)))"
  unfolding acyclic_heap_def
  by (auto simp: alloc_defs nth_append less_Suc_eq)

lemma acyclic_leaf: "acyclic_heap h \<Longrightarrow> acyclic_heap (snd (Node_init s [] op h))"
  unfolding acyclic_heap_def
  by (auto simp: alloc_defs nth_append less_Suc_eq)

lemma acyclic_Node_add:
  assumes "acyclic_heap h" "a < length h" "in_heap b h" "Node_add a b h = Inr (r, h')"
  shows "acyclic_heap h'"
proof (cases b)
  case (Num v)
  have "acyclic_heap (snd (Node_init v [] OpNone h))" using assms(1) by (rule acyclic_leaf)
  from acyclic_alloc[OF this, of "[a, length h]"] show ?thesis
    using assms(2,4) Num by (auto simp: Node_add_def as_node_def Node_init_def)
next
  case (Ref n)
  from acyclic_alloc[OF assms(1), of "[a, n]"] show ?thesis
    using assms(2,3,4) Ref by (auto simp: Node_add_def as_node_def in_heap_def Node_init_def)
qed

lemma acyclic_Node_mul:
  assumes "acyclic_heap h" "a < length h" "in_heap b h" "Node_mul a b h = Inr (r, h')"
  shows "acyclic_heap h'"
proof (cases b)
  case (Num v)
  have "acyclic_heap (snd (Node_init v [] OpNone h))" using assms(1) by (rule acyclic_leaf)
  from acyclic_alloc[OF this, of "[a, length h]"] show ?thesis
    using assms(2,4) Num by (auto simp: Node_mul_def as_node_def Node_init_def)
next
  case (Ref n)
  from acyclic_alloc[OF assms(1), of "[a, n]"] show ?thesis
    using assms(2,3,4) Ref by (auto simp: Node_mul_def as_node_def in_heap_def Node_init_def)
qed

lemma acyclic_Node_pow:
  assumes "acyclic_heap h" "a < length h" "Node_pow a b h = Inr (r, h')"
  shows "acyclic_heap h'"
  using acyclic_alloc[OF assms(1), of "[a]"] assms(2,3)
  by (auto simp: Node_pow_def Node_init_def split: pyval.splits sum.splits)

lemma acyclic_relu: "acyclic_heap h \<Longrightarrow> a < length h \<Longrightarrow> relu a h = (n, h') \<Longrightarrow> acyclic_heap h'"
  using acyclic_alloc[of h "[a]"] by (auto simp: relu_def Node_init_def)

lemma acyclic_sigmoid:
  "acyclic_heap h \<Longrightarrow> a < length h \<Longrightarrow> sigmoid a h = (n, h') \<Longrightarrow> acyclic_heap h'"
  using acyclic_alloc[of h "[a]"] by (auto simp: sigmoid_def Node_init_def)

lemma constructed_acyclic: "constructed h \<Longrightarrow> acyclic_heap h"
proof (induction rule: constructed.induct)
  case empty
  show ?case by (simp add: acyclic_heap_def)
next
  case (leaf h v a h')
  then show ?case using acyclic_leaf[of h v OpNone] by simp
next
  case (add h a b r h')
  then show ?case by (blast intro: acyclic_Node_add)
next
  case (mul h a b r h')
  then show ?case by (blast intro: acyclic_Node_mul)
next
  case (pow h a b r h')
  then show ?case by (blast intro: acyclic_Node_pow)
next
  case (relu h a n h')
  then show ?case by (blast intro: acyclic_relu)
next
  case (sigmoid h a n h')
  then show ?case by (blast intro: acyclic_sigmoid)
next
  case (backward h n iter limit e h')
  have "graph_of h' = graph_of h"
    using backward_propagation_graph[of iter limit n h] backward(3) by simp
  then show ?case using backward.IH by (rule acyclic_graph_of)
qed

lemma operands_first_closed:
  assumes "operands_first h out" "r \<in> set out" "reaches h r n"
  shows "n \<in> set out"
  using assms(3)
proof (induction rule: reaches.induct)
  case root
  show ?case by (rule assms(2))
next
  case (operand n c)
  then obtain j where j: "j < length out" "out ! j = n" by (auto simp: in_set_conv_nth)
  then have "set (previous (h ! n)) \<subseteq> set (take j out)"
    using assms(1) by (auto simp: operands_first_def)
  then show ?case using operand(2) by (auto dest: in_set_takeD)
qed

lemma operands_first_index:
  assumes "operands_first h out" "j < length out" "c \<in> set (previous (h ! (out ! j)))"
  shows "\<exists>k<j. out ! k = c"
proof -
  have "c \<in> set (take j out)" using assms by (auto simp: operands_first_def)
  then obtain k where "k < length (take j out)" "take j out ! k = c"
    by (auto simp: in_set_conv_nth)
  then show ?thesis using assms(2) by (intro exI[of _ k]) simp
qed

lemma dfs_from_root:
  assumes "iteration_order iter" "acyclic_heap h" "r < length h" "r < limit"
  shows "\<exists>out. build_topological_sort iter limit h r ({}, []) = Inr (set out, out) \<and>
     distinct out \<and> operands_first h out \<and> set out = {n. reaches h r n}"
proof -
  have inv0: "dfs_inv h (Suc r) ({}, [])" by (simp add: dfs_inv_def operands_first_def)
  from dfs_correct(1)[OF assms(1,2,3,4) _ inv0] obtain xs where
    run: "build_topological_sort iter limit h r ({}, []) = Inr (set xs, xs)"
    and r: "r \<in> set xs" and inv: "dfs_inv h (Suc r) (set xs, xs)"
    and rch: "\<forall>x\<in>set xs. reaches h r x"
    by auto
  have d: "distinct xs" and o: "operands_first h xs" using inv by (simp_all add: dfs_inv_def)
  have "set xs = {n. reaches h r n}"
    using rch operands_first_closed[OF o r] by auto
  then show ?thesis using run d o by blast
qed

section \<open>The recorded nodes and their backward rules\<close>

lemma two_le_D: "2 \<le> (limit::nat) \<Longrightarrow> \<exists>d. limit = Suc (Suc d)"
  by (metis Suc_le_D numeral_2_eq_2 Suc_le_mono)

lemma py_add_nodes:
  "py_add Node_class (Ref a) (Ref b) h =
     Inr (Ref (length h),
          h @ [\<lparr>scalar = scalar (h ! a) + scalar (h ! b), math_operator = OpAdd, gradient = 0,
                backward = Add_backward a b (length h), previous = remdups [a, b]\<rparr>])"
  by (simp add: py_add_def binary_op_def add_mul_bound Node_add_def alloc_defs)

lemma py_mul_nodes:
  "py_mul Node_class (Ref a) (Ref b) h =
     Inr (Ref (length h),
          h @ [\<lparr>scalar = scalar (h ! a) * scalar (h ! b), math_operator = OpMul, gradient = 0,
                backward = Mul_backward a b (length h), previous = remdups [a, b]\<rparr>])"
  by (simp add: py_mul_def binary_op_def add_mul_bound Node_mul_def alloc_defs)

lemma relu_node:
  "relu a h =
     (length h,
      h @ [\<lparr>scalar = max 0 (scalar (h ! a)), math_operator = OpReLU, gradient = 0,
            backward = Relu_backward a (length h), previous = [a]\<rparr>])"
  by (simp add: relu_def alloc_defs max_def)

lemma sigmoid_node:
  "sigmoid a h =
     (length h,
      h @ [\<lparr>scalar = 1 / (1 + exp (- scalar (h ! a))), math_operator = OpSigmoid, gradient = 0,
            backward = Sigmoid_backward a (length h), previous = [a]\<rparr>])"
  by (simp add: sigmoid_def alloc_defs)

lemma length_add_gradient: "length (add_gradient a g H) = length H"
  by (simp add: add_gradient_def)

lemma gradient_add_gradient:
  "n < length H \<Longrightarrow> gradient (add_gradient a g H ! n) = gradient (H ! n) + (if n = a then g else 0)"
  by (simp add: add_gradient_def nth_update_at)

lemma scalar_add_gradient: "scalar (add_gradient a g H ! n) = scalar (H ! n)"
proof (cases "n = a")
  case False
  then show ?thesis by (simp add: add_gradient_def)
next
  case True
  show ?thesis
  proof (cases "a < length H")
    case True
    then show ?thesis using \<open>n = a\<close> by (simp add: add_gradient_def)
  next
    case False
    then show ?thesis by (simp add: add_gradient_def list_update_beyond)
  qed
qed

lemma add_rule:
  assumes "r \<noteq> a"
  shows "\<exists>H'. run_backward (Add_backward a b r) H = Inr H' \<and> length H' = length H \<and>
     (\<forall>n<length H. gradient (H' ! n) =
        gradient (H ! n) + (if n = a then gradient (H ! r) else 0)
                         + (if n = b then gradient (H ! r) else 0))"
proof -
  let ?g = "gradient (H ! r)"
  have r: "add_gradient a ?g H ! r = H ! r" using assms by (simp add: add_gradient_def)
  have "run_backward (Add_backward a b r) H = Inr (add_gradient b ?g (add_gradient a ?g H))"
    by (simp add: Let_def r)
  then show ?thesis
    by (simp add: length_add_gradient gradient_add_gradient)
qed

lemma mul_rule:
  assumes "r \<noteq> a"
  shows "\<exists>H'. run_backward (Mul_backward a b r) H = Inr H' \<and> length H' = length H \<and>
     (\<forall>n<length H. gradient (H' ! n) =
        gradient (H ! n) + (if n = a then scalar (H ! b) * gradient (H ! r) else 0)
                         + (if n = b then scalar (H ! a) * gradient (H ! r) else 0))"
proof -
  let ?g = "gradient (H ! r)"
  have r: "add_gradient a (scalar (H ! b) * ?g) H ! r = H ! r"
    using assms by (simp add: add_gradient_def)
  have "run_backward (Mul_backward a b r) H =
      Inr (add_gradient b (scalar (H ! a) * ?g) (add_gradient a (scalar (H ! b) * ?g) H))"
    by (simp add: Let_def r scalar_add_gradient)
  then show ?thesis
    by (simp add: length_add_gradient gradient_add_gradient)
qed

lemma relu_rule:
  "\<exists>H'. run_backward (Relu_backward a r) H = Inr H' \<and> length H' = length H \<and>
     (\<forall>n<length H. gradient (H' ! n) =
        gradient (H ! n) + (if n = a \<and> scalar (H ! r) > 0 then gradient (H ! r) else 0))"
  by (simp add: length_add_gradient gradient_add_gradient)

lemma sigmoid_rule:
  "\<exists>H'. run_backward (Sigmoid_backward a r) H = Inr H' \<and> length H' = length H \<and>
     (\<forall>n<length H. gradient (H' ! n) =
        gradient (H ! n) + (if n = a then scalar (H ! r) * (1 - scalar (H ! r)) else 0))"
  by (simp add: length_add_gradient gradient_add_gradient)

lemma insertion_order_ok: "iteration_order insertion_order"
  by (simp add: iteration_order_def insertion_order_def)

lemma walk_none: "iteration_order iter \<Longrightarrow> iter i [] = []"
proof -
  assume "iteration_order iter"
  then have "length (iter i []) = 0" by (simp add: iteration_order_def)
  then show ?thesis by simp
qed

lemma walk_one: "iteration_order iter \<Longrightarrow> iter i [a] = [a]"
proof -
  assume "iteration_order iter"
  then have s: "set (iter i [a]) = {a}" and l: "length (iter i [a]) = 1"
    by (simp_all add: iteration_order_def)
  from l obtain x where x: "iter i [a] = [x]"
    by (auto simp: length_Suc_conv)
  then show ?thesis using s by simp
qed

lemma walk_two:
  assumes "iteration_order iter"
  shows "iter i [a, b] = [a, b] \<or> iter i [a, b] = [b, a]"
proof -
  have s: "set (iter i [a, b]) = {a, b}" and l: "length (iter i [a, b]) = 2"
    using assms by (simp_all add: iteration_order_def)
  from l obtain x y where xy: "iter i [a, b] = [x, y]"
    by (auto simp: length_Suc_conv numeral_2_eq_2)
  then have "{x, y} = {a, b}" using s by simp
  then show ?thesis unfolding xy by (auto simp: doubleton_eq_iff)
qed

lemma add_leaves:
  assumes "iteration_order iter" "is_leaf h a" "is_leaf h b" "a \<noteq> b" "2 \<le> limit"
  shows "\<exists>r h1 h2. py_add Node_class (Ref a) (Ref b) h = Inr (Ref r, h1) \<and>
      backward_propagation iter limit r h1 = (None, h2) \<and>
      gradient (h2 ! a) = 1 \<and> gradient (h2 ! b) = 1"
proof -
  from two_le_D[OF assms(5)] obtain d where d: "limit = Suc (Suc d)" by blast
  from walk_two[OF assms(1), of "length h" a b] show ?thesis
  proof
    assume "iter (length h) [a, b] = [a, b]"
    then show ?thesis using assms(2-4)
      by (simp add: d py_add_nodes is_leaf_def add_gradient_def backward_propagation_def
          nth_append walk_none[OF assms(1)])
  next
    assume "iter (length h) [a, b] = [b, a]"
    then show ?thesis using assms(2-4)
      by (simp add: d py_add_nodes is_leaf_def add_gradient_def backward_propagation_def
          nth_append walk_none[OF assms(1)])
  qed
qed

lemma add_same_leaf:
  assumes "iteration_order iter" "is_leaf h a" "2 \<le> limit"
  shows "\<exists>r h1 h2. py_add Node_class (Ref a) (Ref a) h = Inr (Ref r, h1) \<and>
      backward_propagation iter limit r h1 = (None, h2) \<and> gradient (h2 ! a) = 2"
proof -
  from two_le_D[OF assms(3)] obtain d where d: "limit = Suc (Suc d)" by blast
  show ?thesis using assms(2)
    by (simp add: d py_add_nodes is_leaf_def add_gradient_def backward_propagation_def
        nth_append walk_none[OF assms(1)] walk_one[OF assms(1)])
qed

lemma mul_leaves:
  assumes "iteration_order iter" "is_leaf h a" "is_leaf h b" "a \<noteq> b" "2 \<le> limit"
  shows "\<exists>r h1 h2. py_mul Node_class (Ref a) (Ref b) h = Inr (Ref r, h1) \<and>
      backward_propagation iter limit r h1 = (None, h2) \<and>
      gradient (h2 ! a) = scalar (h ! b) \<and> gradient (h2 ! b) = scalar (h ! a)"
proof -
  from two_le_D[OF assms(5)] obtain d where d: "limit = Suc (Suc d)" by blast
  from walk_two[OF assms(1), of "length h" a b] show ?thesis
  proof
    assume "iter (length h) [a, b] = [a, b]"
    then show ?thesis using assms(2-4)
      by (simp add: d py_mul_nodes is_leaf_def add_gradient_def backward_propagation_def
          nth_append walk_none[OF assms(1)])
  next
    assume "iter (length h) [a, b] = [b, a]"
    then show ?thesis using assms(2-4)
      by (simp add: d py_mul_nodes is_leaf_def add_gradient_def backward_propagation_def
          nth_append walk_none[OF assms(1)])
  qed
qed

lemma relu_leaf:
  assumes "iteration_order iter" "is_leaf h a" "2 \<le> limit"
  shows "\<exists>r h1 h2. relu a h = (r, h1) \<and>
      backward_propagation iter limit r h1 = (None, h2) \<and>
      gradient (h2 ! a) = (if scalar (h ! a) > 0 then 1 else 0)"
proof -
  from two_le_D[OF assms(3)] obtain d where d: "limit = Suc (Suc d)" by blast
  show ?thesis using assms(2)
    by (simp add: d relu_node is_leaf_def add_gradient_def backward_propagation_def
        nth_append walk_none[OF assms(1)] walk_one[OF assms(1)])
qed

section \<open>The operators stay within the constructed heaps\<close>

lemma class_bound:
  "map_of Node_class ''__radd__'' = Some Node_radd"
  "map_of Node_class ''__rmul__'' = Some Node_rmul"
  "map_of Node_class ''__sub__'' = Some Node_sub"
  "map_of Node_class ''__rsub__'' = Some Node_rsub"
  by (simp_all add: Node_class_def Node_reflected_def Node_base_def)

lemma Node_add_result:
  "Node_add a b h = Inr (v, h') \<Longrightarrow> a < length h \<Longrightarrow> in_heap v h' \<and> length h \<le> length h'"
  by (auto simp: Node_add_def alloc_defs in_heap_def split: pyval.splits)

lemma Node_mul_result:
  "Node_mul a b h = Inr (v, h') \<Longrightarrow> a < length h \<Longrightarrow> in_heap v h' \<and> length h \<le> length h'"
  by (auto simp: Node_mul_def alloc_defs in_heap_def split: pyval.splits)

lemma in_heap_mono: "in_heap v h \<Longrightarrow> length h \<le> length h' \<Longrightarrow> in_heap v h'"
  by (cases v) (auto simp: in_heap_def)

lemma py_add_any_step:
  "py_add Node_base (Ref a) y h = Node_add a y h"
  "py_add Node_reflected (Ref a) y h = Node_add a y h"
  "py_add Node_class (Ref a) y h = Node_add a y h"
  "py_add Node_reflected (Num p) (Ref b) h = Node_add b (Num p) h"
  "py_add Node_class (Num p) (Ref b) h = Node_add b (Num p) h"
  by (simp_all add: py_add_def binary_op_def add_mul_bound class_bound lookup_stable Node_radd_def)

lemma py_mul_any_step:
  "py_mul Node_base (Ref a) y h = Node_mul a y h"
  "py_mul Node_reflected (Ref a) y h = Node_mul a y h"
  "py_mul Node_class (Ref a) y h = Node_mul a y h"
  "py_mul Node_class (Num p) (Ref b) h = Node_mul b (Num p) h"
  by (simp_all add: py_mul_def binary_op_def add_mul_bound class_bound lookup_stable Node_rmul_def)

lemma constructed_py_add:
  assumes "constructed h" "in_heap x h" "in_heap y h" "py_add Node_class x y h = Inr (v, h')"
  shows "constructed h'"
proof (cases x)
  case (Ref a)
  then show ?thesis using assms by (auto simp: py_add_any_step in_heap_def intro: constructed.add)
next
  case (Num p)
  show ?thesis
  proof (cases y)
    case (Ref b)
    have n: "in_heap (Num p) h" by (simp add: in_heap_def)
    have b: "b < length h" using assms(3) Ref by (simp add: in_heap_def)
    have "Node_add b (Num p) h = Inr (v, h')"
      using assms(4) Num Ref by (simp add: py_add_any_step)
    from constructed.add[OF assms(1) b n this] show ?thesis .
  next
    case (Num q)
    then show ?thesis using assms \<open>x = Num p\<close> by (simp add: py_add_def binary_op_def)
  qed
qed

lemma constructed_py_mul:
  assumes "constructed h" "in_heap x h" "in_heap y h" "py_mul Node_class x y h = Inr (v, h')"
  shows "constructed h'"
proof (cases x)
  case (Ref a)
  then show ?thesis using assms by (auto simp: py_mul_any_step in_heap_def intro: constructed.mul)
next
  case (Num p)
  show ?thesis
  proof (cases y)
    case (Ref b)
    have n: "in_heap (Num p) h" by (simp add: in_heap_def)
    have b: "b < length h" using assms(3) Ref by (simp add: in_heap_def)
    have "Node_mul b (Num p) h = Inr (v, h')"
      using assms(4) Num Ref by (simp add: py_mul_any_step)
    from constructed.mul[OF assms(1) b n this] show ?thesis .
  next
    case (Num q)
    then show ?thesis using assms \<open>x = Num p\<close> by (simp add: py_mul_def binary_op_def)
  qed
qed

lemma constructed_py_neg:
  assumes "constructed h" "in_heap x h" "py_neg x h = Inr (v, h')"
  shows "constructed h' \<and> in_heap v h' \<and> length h \<le> length h'"
proof (cases x)
  case (Num p)
  then show ?thesis using assms by (auto simp: py_neg_def in_heap_def)
next
  case (Ref a)
  then have m: "Node_mul a (Num (- 1)) h = Inr (v, h')" and a: "a < length h"
    using assms by (simp_all add: py_neg_def Node_neg_def py_mul_any_step in_heap_def)
  have "in_heap (Num (- 1)) h" by (simp add: in_heap_def)
  from constructed.mul[OF assms(1) a this m] Node_mul_result[OF m a] show ?thesis by simp
qed

lemma constructed_py_sub:
  assumes "constructed h" "in_heap x h" "in_heap y h" "py_sub Node_class x y h = Inr (v, h')"
  shows "constructed h'"
proof (cases x)
  case (Ref a)
  then have a: "a < length h" using assms(2) by (simp add: in_heap_def)
  from assms(4) Ref obtain ny h1 where
    n: "py_neg y h = Inr (ny, h1)" and s: "Node_add a ny h1 = Inr (v, h')"
    by (auto simp: py_sub_def binary_op_def class_bound Node_sub_def py_add_any_step
        split: sum.splits)
  from constructed_py_neg[OF assms(1,3) n] have c: "constructed h1" "in_heap ny h1"
    and l: "length h \<le> length h1" by simp_all
  from constructed.add[OF c(1) _ c(2) s] a l show ?thesis by simp
next
  case (Num p)
  show ?thesis
  proof (cases y)
    case (Num q)
    then show ?thesis using assms \<open>x = Num p\<close> by (simp add: py_sub_def binary_op_def)
  next
    case (Ref b)
    from assms(4) Num Ref obtain nb h1 where
      n: "py_neg (Ref b) h = Inr (nb, h1)" and s: "py_add Node_reflected (Num p) nb h1 = Inr (v, h')"
      by (auto simp: py_sub_def binary_op_def class_bound Node_rsub_def py_neg_def
          split: sum.splits)
    from constructed_py_neg[OF assms(1) _ n] assms(3) Ref
    have c: "constructed h1" "in_heap nb h1" by simp_all
    from n obtain k where k: "nb = Ref k"
      by (auto simp: py_neg_def Node_neg_def py_mul_any_step Node_mul_def alloc_defs)
    have "in_heap (Num p) h1" by (simp add: in_heap_def)
    from constructed.add[OF c(1) _ this] s c(2) show ?thesis
      by (simp add: k py_add_any_step in_heap_def)
  qed
qed

section \<open>Softmax on nodes\<close>

text \<open>What \<open>softmax\<close> computes on a non-empty list of nodes: only the last element counts.\<close>

lemma softmax_loop_last:
  "ns \<noteq> [] \<Longrightarrow> softmax_loop (map Ref ns) h acc = Inr (exp (scalar (h ! last ns)))"
  by (induction ns arbitrary: acc) auto

lemma softmax_keeps_last:
  "ns \<noteq> [] \<Longrightarrow> softmax a (map Ref ns) h = Inr (exp (scalar (h ! a)) / exp (scalar (h ! last ns)))"
  by (simp add: softmax_def softmax_loop_last)

section \<open>A complete run\<close>

text \<open>
  \<open>x = Node(2)\<close>, \<open>y = Node(-3)\<close>, \<open>z = Node(10)\<close>, \<open>q = x*y + z\<close>, \<open>h = q.relu()\<close>:
  both \<open>q\<close> and \<open>h\<close> have value \<open>4\<close>, and backward propagation from \<open>h\<close> leaves the
  gradients \<open>-3\<close>, \<open>2\<close> and \<open>1\<close> on \<open>x\<close>, \<open>y\<close> and \<open>z\<close>.
\<close>

lemma end_to_end_scenario:
  "\<exists>h3 h4 h5 h6.
     py_mul Node_class (Ref 0) (Ref 1)
       [\<lparr>scalar = 2, math_operator = OpNone, gradient = 0, backward = Noop, previous = []\<rparr>,
        \<lparr>scalar = - 3, math_operator = OpNone, gradient = 0, backward = Noop, previous = []\<rparr>,
        \<lparr>scalar = 10, math_operator = OpNone, gradient = 0, backward = Noop, previous = []\<rparr>]
       = Inr (Ref 3, h3) \<and>
     py_add Node_class (Ref 3) (Ref 2) h3 = Inr (Ref 4, h4) \<and>
     relu 4 h4 = (5, h5) \<and> scalar (h5 ! 4) = 4 \<and> scalar (h5 ! 5) = 4 \<and>
     backward_propagation insertion_order 4 5 h5 = (None, h6) \<and>
     gradient (h6 ! 0) = - 3 \<and> gradient (h6 ! 1) = 2 \<and> gradient (h6 ! 2) = 1"
  by (simp add: py_mul_nodes py_add_nodes relu_node add_gradient_def backward_propagation_def
      insertion_order_def numeral_eq_Suc)

section \<open>Power\<close>

text \<open>
  C1. The claim: \<open>a ** p\<close> on a node \<open>a\<close> and a plain number \<open>p\<close> returns a node of value
  \<open>a.scalar ** p\<close> whose backward rule adds \<open>p * a.scalar**(p-1) * r.gradient\<close> to
  \<open>a.gradient\<close>, so that \<open>a ** 3\<close> at \<open>a.scalar = 2\<close> gives \<open>a.gradient = 12\<close>. The code: the
  class names its power method \<open>_pow__\<close>, so the operator \<open>**\<close> finds no \<open>__pow__\<close> and
  \<open>Node(2) ** 3\<close> raises \<open>TypeError\<close>; no node is returned and no gradient is computed.
\<close>

theorem power_operator_raises:
  "py_pow Node_class (Ref 0) (Num 3) (snd (Node_init 2 [] OpNone [])) = Inl TypeError"
  by (rule py_pow_node_raises)

section \<open>Division\<close>

text \<open>
  C3. The claim: \<open>a / b\<close> on two nodes is the composition \<open>a * b**(-1)\<close> (and the right
  form \<open>b * a**(-1)\<close>) and returns a node. The code: \<open>__truediv__\<close> evaluates
  \<open>b ** (-1)\<close> first, which raises \<open>TypeError\<close> because the class binds no \<open>__pow__\<close>;
  with \<open>a = Node(6)\<close> and \<open>b = Node(3)\<close>, \<open>a / b\<close> raises and so does the right form \<open>6 / b\<close>.
\<close>

theorem division_raises:
  "py_truediv Node_class (Ref 0) (Ref 1)
     (snd (Node_init 3 [] OpNone (snd (Node_init 6 [] OpNone [])))) = Inl TypeError \<and>
   py_truediv Node_class (Num 6) (Ref 1)
     (snd (Node_init 3 [] OpNone (snd (Node_init 6 [] OpNone [])))) = Inl TypeError"
  by (simp only: py_truediv_nodes_raises py_rtruediv_raises)

section \<open>Sigmoid\<close>

text \<open>
  C2. The claim: \<open>sigmoid(a)\<close> returns a node of value \<open>1 / (1 + exp(-a.scalar))\<close> whose
  backward rule adds \<open>r.scalar * (1 - r.scalar) * r.gradient\<close> to \<open>a.gradient\<close>. The code
  computes the value as claimed (\<open>sigmoid_node\<close>), but its rule adds
  \<open>r.scalar * (1 - r.scalar)\<close> without the factor \<open>r.gradient\<close> (\<open>sigmoid_rule\<close>). With
  \<open>a = Node(0)\<close>, \<open>r = a.sigmoid()\<close> and \<open>s = r + r\<close>, backward propagation from \<open>s\<close> runs
  the rule of \<open>r\<close> when \<open>r.gradient = 2\<close> and leaves \<open>a.gradient = 1/4\<close>, where the claimed
  rule gives \<open>1/2 * 1/2 * 2 = 1/2\<close>.
\<close>

theorem sigmoid_rule_ignores_upstream:
  "\<exists>h1 h2 h3.
      sigmoid 0 (snd (Node_init 0 [] OpNone [])) = (1, h1) \<and>
      py_add Node_class (Ref 1) (Ref 1) h1 = Inr (Ref 2, h2) \<and>
      backward_propagation insertion_order 3 2 h2 = (None, h3) \<and>
      scalar (h3 ! 1) = 1 / 2 \<and> gradient (h3 ! 1) = 2 \<and> gradient (h3 ! 0) = 1 / 4"
  by (simp add: sigmoid_def py_add_def dispatch_defs Node_add_def alloc_defs
      backward_propagation_def insertion_order_def numeral_3_eq_3)

section \<open>Topological order\<close>

text \<open>
  C4. On every heap built by the operators, for every root \<open>r\<close> and every recursion limit
  above the index of \<open>r\<close>, the ordering phase returns a sequence that holds exactly the
  nodes reachable from \<open>r\<close>, each once, in which every operand of a node stands strictly
  before that node.
\<close>

theorem topological_order:
  assumes "constructed h" "iteration_order iter" "r < length h" "r < limit"
  shows "\<exists>visited out.
     build_topological_sort iter limit h r ({}, []) = Inr (visited, out) \<and>
     distinct out \<and> set out = {n. reaches h r n} \<and>
     (\<forall>j<length out. \<forall>c\<in>set (previous (h ! (out ! j))). \<exists>k<j. out ! k = c)"
proof -
  from dfs_from_root[OF assms(2) constructed_acyclic[OF assms(1)] assms(3,4)] obtain out where
    "build_topological_sort iter limit h r ({}, []) = Inr (set out, out)"
    "distinct out" "operands_first h out" "set out = {n. reaches h r n}"
    by blast
  then show ?thesis using operands_first_index[of h out] by blast
qed

theorem topological_order_witness:
  "constructed
     [\<lparr>scalar = 2, math_operator = OpNone, gradient = 0, backward = Noop, previous = []\<rparr>,
      \<lparr>scalar = 3, math_operator = OpNone, gradient = 0, backward = Noop, previous = []\<rparr>,
      \<lparr>scalar = 6, math_operator = OpMul, gradient = 0, backward = Mul_backward 0 1 2,
         previous = [0, 1]\<rparr>,
      \<lparr>scalar = 8, math_operator = OpAdd, gradient = 0, backward = Add_backward 2 0 3,
         previous = [2, 0]\<rparr>] \<and>
   iteration_order insertion_order \<and>
   (\<exists>visited.
      build_topological_sort insertion_order 4
        [\<lparr>scalar = 2, math_operator = OpNone, gradient = 0, backward = Noop, previous = []\<rparr>,
         \<lparr>scalar = 3, math_operator = OpNone, gradient = 0, backward = Noop, previous = []\<rparr>,
         \<lparr>scalar = 6, math_operator = OpMul, gradient = 0, backward = Mul_backward 0 1 2,
            previous = [0, 1]\<rparr>,
         \<lparr>scalar = 8, math_operator = OpAdd, gradient = 0, backward = Add_backward 2 0 3,
            previous = [2, 0]\<rparr>] 3 ({}, []) = Inr (visited, [0, 1, 2, 3]))"
proof -
  let ?a = "\<lparr>scalar = 2, math_operator = OpNone, gradient = 0, backward = Noop, previous = []\<rparr>"
  let ?b = "\<lparr>scalar = 3, math_operator = OpNone, gradient = 0, backward = Noop, previous = []\<rparr>"
  let ?c = "\<lparr>scalar = 6, math_operator = OpMul, gradient = 0, backward = Mul_backward 0 1 2,
         previous = [0, 1]\<rparr>"
  let ?d = "\<lparr>scalar = 8, math_operator = OpAdd, gradient = 0, backward = Add_backward 2 0 3,
         previous = [2, 0]\<rparr>"
  have c1: "constructed [?a]"
    by (rule constructed.leaf[OF constructed.empty, of 2 0]) (simp add: Node_init_def)
  have c2: "constructed [?a, ?b]"
    by (rule constructed.leaf[OF c1, of 3 1]) (simp add: Node_init_def)
  have c3: "constructed [?a, ?b, ?c]"
    by (rule constructed.mul[OF c2, of 0 "Ref 1" "Ref 2"])
      (simp_all add: in_heap_def Node_mul_def alloc_defs)
  have c4: "constructed [?a, ?b, ?c, ?d]"
    by (rule constructed.add[OF c3, of 2 "Ref 0" "Ref 3"])
      (simp_all add: in_heap_def Node_add_def alloc_defs)
  from topological_order[OF c4 insertion_order_ok, of 3 4] obtain visited out where
    run: "build_topological_sort insertion_order 4 [?a, ?b, ?c, ?d] 3 ({}, []) = Inr (visited, out)"
    by auto
  have "out = [0, 1, 2, 3]" using run by (simp add: numeral_eq_Suc insertion_order_def)
  then show ?thesis using c4 run insertion_order_ok by simp
qed

section \<open>Addition\<close>

text \<open>
  C5. For nodes \<open>a\<close> and \<open>b\<close>, \<open>a + b\<close> records a node whose backward rule adds the
  gradient of the result, unchanged, to the gradient of \<open>a\<close> and to the gradient of \<open>b\<close>
  (twice to the same node when \<open>a\<close> is \<open>b\<close>). For distinct leaves with gradient \<open>0\<close>,
  backward propagation from \<open>a + b\<close> leaves both gradients at \<open>1\<close>; for a leaf \<open>a\<close>,
  backward propagation from \<open>a + a\<close> leaves \<open>a.gradient = 2\<close>.
\<close>

theorem additive_backward_rule:
  assumes "iteration_order iter" "a < length h" "b < length h" "2 \<le> limit"
  shows "\<exists>r h1.
     py_add Node_class (Ref a) (Ref b) h = Inr (Ref r, h1) \<and>
     backward (h1 ! r) = Add_backward a b r \<and>
     (\<forall>H. \<exists>H'. run_backward (backward (h1 ! r)) H = Inr H' \<and> length H' = length H \<and>
        (\<forall>n<length H. gradient (H' ! n) =
           gradient (H ! n) + (if n = a then gradient (H ! r) else 0)
                            + (if n = b then gradient (H ! r) else 0))) \<and>
     (is_leaf h a \<and> is_leaf h b \<and> a \<noteq> b \<longrightarrow>
        (\<exists>h2. backward_propagation iter limit r h1 = (None, h2) \<and>
           gradient (h2 ! a) = 1 \<and> gradient (h2 ! b) = 1)) \<and>
     (is_leaf h a \<and> a = b \<longrightarrow>
        (\<exists>h2. backward_propagation iter limit r h1 = (None, h2) \<and> gradient (h2 ! a) = 2))"
proof -
  obtain r h1 where run: "py_add Node_class (Ref a) (Ref b) h = Inr (Ref r, h1)"
    and r: "r = length h" and bw: "backward (h1 ! r) = Add_backward a b r"
    by (simp add: py_add_nodes)
  have ne: "r \<noteq> a" using r assms(2) by simp
  have rule: "\<forall>H. \<exists>H'. run_backward (backward (h1 ! r)) H = Inr H' \<and> length H' = length H \<and>
        (\<forall>n<length H. gradient (H' ! n) =
           gradient (H ! n) + (if n = a then gradient (H ! r) else 0)
                            + (if n = b then gradient (H ! r) else 0))"
    unfolding bw using add_rule[OF ne] by blast
  have two: "is_leaf h a \<and> is_leaf h b \<and> a \<noteq> b \<longrightarrow>
        (\<exists>h2. backward_propagation iter limit r h1 = (None, h2) \<and>
           gradient (h2 ! a) = 1 \<and> gradient (h2 ! b) = 1)"
    using add_leaves[OF assms(1), of h a b limit] assms(4) run by auto
  have same: "is_leaf h a \<and> a = b \<longrightarrow>
        (\<exists>h2. backward_propagation iter limit r h1 = (None, h2) \<and> gradient (h2 ! a) = 2)"
    using add_same_leaf[OF assms(1), of h a limit] assms(4) run by auto
  show ?thesis using run bw rule two same by blast
qed

theorem additive_backward_rule_witness:
  "(\<exists>r h1 h2.
      py_add Node_class (Ref 0) (Ref 1)
        [\<lparr>scalar = 5, math_operator = OpNone, gradient = 0, backward = Noop, previous = []\<rparr>,
         \<lparr>scalar = 7, math_operator = OpNone, gradient = 0, backward = Noop, previous = []\<rparr>]
        = Inr (Ref r, h1) \<and>
      backward_propagation insertion_order 2 r h1 = (None, h2) \<and> gradient (h2 ! 0) = 1 \<and> gradient (h2 ! 1) = 1) \<and>
   (\<exists>r h1 h2.
      py_add Node_class (Ref 0) (Ref 0)
        [\<lparr>scalar = 5, math_operator = OpNone, gradient = 0, backward = Noop, previous = []\<rparr>,
         \<lparr>scalar = 7, math_operator = OpNone, gradient = 0, backward = Noop, previous = []\<rparr>]
        = Inr (Ref r, h1) \<and>
      backward_propagation insertion_order 2 r h1 = (None, h2) \<and> gradient (h2 ! 0) = 2)"
proof -
  let ?h = "[\<lparr>scalar = 5, math_operator = OpNone, gradient = 0, backward = Noop, previous = []\<rparr>,
         \<lparr>scalar = 7, math_operator = OpNone, gradient = 0, backward = Noop, previous = []\<rparr>]"
  have l: "is_leaf ?h 0" "is_leaf ?h 1" by (simp_all add: is_leaf_def)
  have "(0::nat) < length ?h" "(1::nat) < length ?h" "(2::nat) \<le> 2" by simp_all
  from additive_backward_rule[OF insertion_order_ok this(1,2,3)]
    additive_backward_rule[OF insertion_order_ok this(1,1,3)] l
  show ?thesis by (metis zero_neq_one)
qed

section \<open>Multiplication\<close>

text \<open>
  C6. For nodes \<open>a\<close> and \<open>b\<close>, \<open>a * b\<close> records a node of value \<open>a.scalar * b.scalar\<close> whose
  backward rule adds \<open>b.scalar * r.gradient\<close> to \<open>a.gradient\<close> and \<open>a.scalar * r.gradient\<close>
  to \<open>b.gradient\<close>. For distinct leaves, backward propagation from \<open>a * b\<close> leaves
  \<open>a.gradient = b.scalar\<close> and \<open>b.gradient = a.scalar\<close>: \<open>4\<close> and \<open>3\<close> for the values
  \<open>3\<close> and \<open>4\<close>.
\<close>

theorem multiplicative_backward_rule:
  assumes "iteration_order iter" "a < length h" "b < length h" "2 \<le> limit"
  shows "\<exists>r h1.
     py_mul Node_class (Ref a) (Ref b) h = Inr (Ref r, h1) \<and>
     scalar (h1 ! r) = scalar (h ! a) * scalar (h ! b) \<and>
     backward (h1 ! r) = Mul_backward a b r \<and>
     (\<forall>H. \<exists>H'. run_backward (backward (h1 ! r)) H = Inr H' \<and> length H' = length H \<and>
        (\<forall>n<length H. gradient (H' ! n) =
           gradient (H ! n) + (if n = a then scalar (H ! b) * gradient (H ! r) else 0)
                            + (if n = b then scalar (H ! a) * gradient (H ! r) else 0))) \<and>
     (is_leaf h a \<and> is_leaf h b \<and> a \<noteq> b \<longrightarrow>
        (\<exists>h2. backward_propagation iter limit r h1 = (None, h2) \<and>
           gradient (h2 ! a) = scalar (h ! b) \<and> gradient (h2 ! b) = scalar (h ! a)))"
proof -
  obtain r h1 where run: "py_mul Node_class (Ref a) (Ref b) h = Inr (Ref r, h1)"
    and r: "r = length h" and bw: "backward (h1 ! r) = Mul_backward a b r"
    and sc: "scalar (h1 ! r) = scalar (h ! a) * scalar (h ! b)"
    by (simp add: py_mul_nodes)
  have ne: "r \<noteq> a" using r assms(2) by simp
  have rule: "\<forall>H. \<exists>H'. run_backward (backward (h1 ! r)) H = Inr H' \<and> length H' = length H \<and>
        (\<forall>n<length H. gradient (H' ! n) =
           gradient (H ! n) + (if n = a then scalar (H ! b) * gradient (H ! r) else 0)
                            + (if n = b then scalar (H ! a) * gradient (H ! r) else 0))"
    unfolding bw using mul_rule[OF ne] by blast
  have two: "is_leaf h a \<and> is_leaf h b \<and> a \<noteq> b \<longrightarrow>
        (\<exists>h2. backward_propagation iter limit r h1 = (None, h2) \<and>
           gradient (h2 ! a) = scalar (h ! b) \<and> gradient (h2 ! b) = scalar (h ! a))"
    using mul_leaves[OF assms(1), of h a b limit] assms(4) run by auto
  show ?thesis using run sc bw rule two by blast
qed

theorem multiplicative_backward_rule_witness:
  "\<exists>r h1 h2.
      py_mul Node_class (Ref 0) (Ref 1)
        [\<lparr>scalar = 3, math_operator = OpNone, gradient = 0, backward = Noop, previous = []\<rparr>,
         \<lparr>scalar = 4, math_operator = OpNone, gradient = 0, backward = Noop, previous = []\<rparr>]
        = Inr (Ref r, h1) \<and> scalar (h1 ! r) = 12 \<and>
      backward_propagation insertion_order 2 r h1 = (None, h2) \<and> gradient (h2 ! 0) = 4 \<and> gradient (h2 ! 1) = 3"
proof -
  let ?h = "[\<lparr>scalar = 3, math_operator = OpNone, gradient = 0, backward = Noop, previous = []\<rparr>,
         \<lparr>scalar = 4, math_operator = OpNone, gradient = 0, backward = Noop, previous = []\<rparr>]"
  have l: "is_leaf ?h 0 \<and> is_leaf ?h 1 \<and> (0::nat) \<noteq> 1" by (simp add: is_leaf_def)
  have "(0::nat) < length ?h" "(1::nat) < length ?h" "(2::nat) \<le> 2" by simp_all
  from multiplicative_backward_rule[OF insertion_order_ok this] obtain r h1 where
    run: "py_mul Node_class (Ref 0) (Ref 1) ?h = Inr (Ref r, h1)"
    and sc: "scalar (h1 ! r) = scalar (?h ! 0) * scalar (?h ! 1)"
    and two: "is_leaf ?h 0 \<and> is_leaf ?h 1 \<and> (0::nat) \<noteq> 1 \<longrightarrow>
        (\<exists>h2. backward_propagation insertion_order 2 r h1 = (None, h2) \<and>
           gradient (h2 ! 0) = scalar (?h ! 1) \<and> gradient (h2 ! 1) = scalar (?h ! 0))"
    by blast
  from two l obtain h2 where "backward_propagation insertion_order 2 r h1 = (None, h2)"
    "gradient (h2 ! 0) = scalar (?h ! 1)" "gradient (h2 ! 1) = scalar (?h ! 0)" by blast
  then show ?thesis using run sc by simp
qed

section \<open>ReLU\<close>

text \<open>
  C7. For a node \<open>a\<close>, \<open>relu(a)\<close> records a node of value \<open>max(0, a.scalar)\<close> whose
  backward rule adds \<open>r.gradient\<close> to \<open>a.gradient\<close> when \<open>r.scalar > 0\<close> and nothing
  otherwise. For a leaf \<open>a\<close>, backward propagation from \<open>relu(a)\<close> leaves \<open>a.gradient = 1\<close>
  when \<open>a.scalar > 0\<close> and \<open>0\<close> when \<open>a.scalar \<le> 0\<close>, the boundary \<open>a.scalar = 0\<close>
  included.
\<close>

theorem relu_gate:
  assumes "iteration_order iter" "a < length h" "2 \<le> limit"
  shows "\<exists>r h1.
     relu a h = (r, h1) \<and>
     scalar (h1 ! r) = max 0 (scalar (h ! a)) \<and>
     backward (h1 ! r) = Relu_backward a r \<and>
     (\<forall>H. \<exists>H'. run_backward (backward (h1 ! r)) H = Inr H' \<and> length H' = length H \<and>
        (\<forall>n<length H. gradient (H' ! n) =
           gradient (H ! n) + (if n = a \<and> scalar (H ! r) > 0 then gradient (H ! r) else 0))) \<and>
     (is_leaf h a \<longrightarrow>
        (\<exists>h2. backward_propagation iter limit r h1 = (None, h2) \<and>
           gradient (h2 ! a) = (if scalar (h ! a) > 0 then 1 else 0)))"
proof -
  obtain r h1 where run: "relu a h = (r, h1)"
    and bw: "backward (h1 ! r) = Relu_backward a r"
    and sc: "scalar (h1 ! r) = max 0 (scalar (h ! a))"
    by (simp add: relu_node)
  have rule: "\<forall>H. \<exists>H'. run_backward (backward (h1 ! r)) H = Inr H' \<and> length H' = length H \<and>
        (\<forall>n<length H. gradient (H' ! n) =
           gradient (H ! n) + (if n = a \<and> scalar (H ! r) > 0 then gradient (H ! r) else 0))"
    unfolding bw using relu_rule by blast
  have leaf: "is_leaf h a \<longrightarrow>
        (\<exists>h2. backward_propagation iter limit r h1 = (None, h2) \<and>
           gradient (h2 ! a) = (if scalar (h ! a) > 0 then 1 else 0))"
    using relu_leaf[OF assms(1), of h a limit] assms(3) run by auto
  show ?thesis using run sc bw rule leaf by blast
qed

theorem relu_gate_witness:
  "\<exists>r h1 h2.
      relu 0 [\<lparr>scalar = 0, math_operator = OpNone, gradient = 0, backward = Noop, previous = []\<rparr>]
        = (r, h1) \<and> scalar (h1 ! r) = 0 \<and>
      backward_propagation insertion_order 2 r h1 = (None, h2) \<and> gradient (h2 ! 0) = 0"
proof -
  let ?h = "[\<lparr>scalar = 0, math_operator = OpNone, gradient = 0, backward = Noop, previous = []\<rparr>]"
  have l: "is_leaf ?h 0" by (simp add: is_leaf_def)
  have "(0::nat) < length ?h" "(2::nat) \<le> 2" by simp_all
  from relu_gate[OF insertion_order_ok this] obtain r h1 where
    run: "relu 0 ?h = (r, h1)"
    and sc: "scalar (h1 ! r) = max 0 (scalar (?h ! 0))"
    and leaf: "is_leaf ?h 0 \<longrightarrow>
        (\<exists>h2. backward_propagation insertion_order 2 r h1 = (None, h2) \<and>
           gradient (h2 ! 0) = (if scalar (?h ! 0) > 0 then 1 else 0))"
    by blast
  from leaf l obtain h2 where "backward_propagation insertion_order 2 r h1 = (None, h2)"
    "gradient (h2 ! 0) = (if scalar (?h ! 0) > 0 then 1 else 0)" by blast
  then show ?thesis using run sc by simp
qed

section \<open>Softmax\<close>

text \<open>
  C8. The claim: \<open>softmax(a, others)\<close> returns \<open>exp(a.scalar)\<close> divided by the sum of
  \<open>exp(x.scalar)\<close> over \<open>others\<close>. The code initialises \<open>sum_softmax = 0\<close> and then
  assigns, not adds, in the loop, so only the last element counts
  (\<open>softmax_keeps_last\<close>). With \<open>a = Node(0)\<close> and \<open>others = [a, a]\<close> the code returns
  \<open>1\<close>, where the claimed quotient is \<open>1/2\<close>.
\<close>

theorem softmax_overwrites_sum:
  "softmax 0 [Ref 0, Ref 0] (snd (Node_init 0 [] OpNone [])) = Inr 1 \<and>
   exp (scalar (snd (Node_init 0 [] OpNone []) ! 0)) /
     (\<Sum>x\<leftarrow>[0, 0]. exp (scalar (snd (Node_init 0 [] OpNone []) ! x))) = 1 / 2"
  by (simp add: softmax_def Node_init_def)

section \<open>Forward values are stable\<close>

text \<open>
  C9. Backward propagation from any root of any heap, whether it returns or raises,
  leaves every field but the gradients as it was, so every \<open>scalar\<close> is unchanged; and
  the operations that record nodes leave every existing node untouched, gradient
  included, so gradients change during backward propagation only.
\<close>

theorem backward_changes_only_gradients:
  "graph_of (snd (backward_propagation iter limit r h)) = graph_of h \<and>
   map scalar (snd (backward_propagation iter limit r h)) = map scalar h \<and>
   (\<forall>s cs op n h'. Node_init s cs op h = (n, h') \<longrightarrow> take (length h) h' = h) \<and>
   (\<forall>a b v h'. Node_add a b h = Inr (v, h') \<longrightarrow> take (length h) h' = h) \<and>
   (\<forall>a b v h'. Node_mul a b h = Inr (v, h') \<longrightarrow> take (length h) h' = h) \<and>
   (\<forall>a b v h'. Node_pow a b h = Inr (v, h') \<longrightarrow> take (length h) h' = h) \<and>
   (\<forall>a n h'. relu a h = (n, h') \<longrightarrow> take (length h) h' = h) \<and>
   (\<forall>a n h'. sigmoid a h = (n, h') \<longrightarrow> take (length h) h' = h)"
  using backward_propagation_graph[of iter limit r h]
    graph_of_scalars[OF backward_propagation_graph[of iter limit r h]]
    Node_init_extends[of _ _ _ h] Node_add_extends[of _ _ h] Node_mul_extends[of _ _ h]
    Node_pow_extends[of _ _ h] relu_extends[of _ h] sigmoid_extends[of _ h]
  by blast

theorem backward_changes_only_gradients_witness:
  "map scalar (snd (backward_propagation insertion_order 2 2
      [\<lparr>scalar = 3, math_operator = OpNone, gradient = 0, backward = Noop, previous = []\<rparr>,
       \<lparr>scalar = 4, math_operator = OpNone, gradient = 0, backward = Noop, previous = []\<rparr>,
       \<lparr>scalar = 12, math_operator = OpMul, gradient = 0, backward = Mul_backward 0 1 2,
          previous = [0, 1]\<rparr>])) = [3, 4, 12] \<and>
   take 3 (snd (relu 2
      [\<lparr>scalar = 3, math_operator = OpNone, gradient = 0, backward = Noop, previous = []\<rparr>,
       \<lparr>scalar = 4, math_operator = OpNone, gradient = 0, backward = Noop, previous = []\<rparr>,
       \<lparr>scalar = 12, math_operator = OpMul, gradient = 0, backward = Mul_backward 0 1 2,
          previous = [0, 1]\<rparr>])) =
      [\<lparr>scalar = 3, math_operator = OpNone, gradient = 0, backward = Noop, previous = []\<rparr>,
       \<lparr>scalar = 4, math_operator = OpNone, gradient = 0, backward = Noop, previous = []\<rparr>,
       \<lparr>scalar = 12, math_operator = OpMul, gradient = 0, backward = Mul_backward 0 1 2,
          previous = [0, 1]\<rparr>]"
proof -
  let ?h = "[\<lparr>scalar = 3, math_operator = OpNone, gradient = 0, backward = Noop, previous = []\<rparr>,
       \<lparr>scalar = 4, math_operator = OpNone, gradient = 0, backward = Noop, previous = []\<rparr>,
       \<lparr>scalar = 12, math_operator = OpMul, gradient = 0, backward = Mul_backward 0 1 2,
          previous = [0, 1]\<rparr>]"
  from backward_changes_only_gradients[of insertion_order 2 2 ?h]
  have s: "map scalar (snd (backward_propagation insertion_order 2 2 ?h)) = map scalar ?h"
    and r: "\<forall>a n h'. relu a ?h = (n, h') \<longrightarrow> take (length ?h) h' = ?h"
    by blast+
  have t: "take (length ?h) (snd (relu 2 ?h)) = ?h"
    using r by (metis prod.collapse)
  have len: "length ?h = 3" by simp
  have sc: "map scalar ?h = [3, 4, 12]" by simp
  from s[unfolded sc] t[unfolded len] show ?thesis by (rule conjI)
qed

section \<open>Comparisons\<close>

text \<open>
  C10. The comparisons \<open>>\<close>, \<open><\<close>, \<open>>=\<close>, \<open><=\<close> of a node with a plain number raise
  \<open>AttributeError\<close> on either side, for the method reads \<open>other.scalar\<close> without wrapping;
  on two nodes they return the comparison of the two \<open>scalar\<close> fields and leave the heap
  as it was.
\<close>

theorem comparisons_do_not_wrap:
  "py_gt (Ref a) (Num c) h = Inl AttributeError \<and>
   py_lt (Ref a) (Num c) h = Inl AttributeError \<and>
   py_ge (Ref a) (Num c) h = Inl AttributeError \<and>
   py_le (Ref a) (Num c) h = Inl AttributeError \<and>
   py_gt (Num c) (Ref a) h = Inl AttributeError \<and>
   py_lt (Num c) (Ref a) h = Inl AttributeError \<and>
   py_ge (Num c) (Ref a) h = Inl AttributeError \<and>
   py_le (Num c) (Ref a) h = Inl AttributeError \<and>
   py_gt (Ref a) (Ref b) h = Inr (scalar (h ! a) > scalar (h ! b), h) \<and>
   py_lt (Ref a) (Ref b) h = Inr (scalar (h ! a) < scalar (h ! b), h) \<and>
   py_ge (Ref a) (Ref b) h = Inr (scalar (h ! a) \<ge> scalar (h ! b), h) \<and>
   py_le (Ref a) (Ref b) h = Inr (scalar (h ! a) \<le> scalar (h ! b), h)"
  by (simp add: compare_defs)

theorem comparisons_do_not_wrap_witness:
  "py_gt (Ref 0) (Num 1) (snd (Node_init 2 [] OpNone [])) = Inl AttributeError \<and>
   py_gt (Ref 0) (Ref 0) (snd (Node_init 2 [] OpNone [])) = Inr (False, snd (Node_init 2 [] OpNone []))"
  using comparisons_do_not_wrap[of 0 1 "snd (Node_init 2 [] OpNone [])" 0]
  by (simp add: Node_init_def)

end
